theory Spec2Isabelle
  imports Main "HOL-Library.Multiset"
begin

section \<open>Data model of the health checker\<close>

text \<open>
  The Go type \<^verbatim>\<open>Status\<close> is a string with two named constants.  A \<^verbatim>\<open>Result\<close> read
  back from JSON may hold any string, so the type stays a string here.
\<close>

type_synonym Status = string

definition StatusHealthy :: Status where
  "StatusHealthy = ''healthy''"

definition StatusUnhealthy :: Status where
  "StatusUnhealthy = ''unhealthy''"

definition redisKey :: string where
  "redisKey = ''kenko:results''"

text \<open>\<^verbatim>\<open>config.Target\<close>.\<close>

record Target =
  Name :: string
  URL :: string

text \<open>
  \<^verbatim>\<open>monitor.Result\<close>.  \<^verbatim>\<open>StatusCode\<close> is a Go \<^verbatim>\<open>int\<close> and \<^verbatim>\<open>Error\<close> a Go string: a field
  that a composite literal leaves out holds the zero value (\<open>0\<close>, the empty string).
  \<^verbatim>\<open>Latency\<close> is a duration and \<^verbatim>\<open>CheckedAt\<close> an instant, both counted in nanoseconds.
\<close>

record Result =
  Target :: string
  URL :: string
  Status :: Status
  StatusCode :: int
  Latency :: int
  Error :: string
  CheckedAt :: int

section \<open>The probe\<close>

text \<open>
  What \<^verbatim>\<open>check\<close> calls outside the repository is a parameter of the model:
  \<^item> \<open>now k\<close> is the \<open>k\<close>-th reading of the clock during the probe
    (\<^verbatim>\<open>time.Now\<close> at the start, the reading inside \<^verbatim>\<open>time.Since\<close>, \<^verbatim>\<open>time.Now\<close> for
    \<^verbatim>\<open>CheckedAt\<close>);
  \<^item> \<open>NewRequestWithContext\<close> is \<^verbatim>\<open>http.NewRequestWithContext(ctx, GET, url, nil)\<close>: the text
    of the error (\<open>Inl\<close>) or the request (\<open>Inr\<close>);
  \<^item> \<open>Do\<close> is \<^verbatim>\<open>c.client.Do(req)\<close>: the text of the error (timeout, refused
    connection, DNS failure, cancelled context) or the response.
\<close>

datatype Request = Request (Method: string) (ReqURL: string)

datatype Response = Response (RespStatusCode: int)

record probe_env =
  now :: "nat \<Rightarrow> int"
  NewRequestWithContext :: "string \<Rightarrow> string + Request"
  Do :: "Request \<Rightarrow> string + Response"

text \<open>\<^verbatim>\<open>func (c *Checker) check(ctx, target) Result\<close>, the same text in every copy of the checker.\<close>

definition check :: "probe_env \<Rightarrow> Target \<Rightarrow> Result" where
  "check env target =
     (let start = now env 0 in
      case NewRequestWithContext env (Target.URL target) of
        Inl err \<Rightarrow>
          \<lparr>Target = Name target, URL = Target.URL target, Status = StatusUnhealthy,
           StatusCode = 0, Latency = now env 1 - start,
           Error = ''bad request: '' @ err, CheckedAt = now env 2\<rparr>
      | Inr req \<Rightarrow>
          (case Do env req of
             Inl err \<Rightarrow>
               \<lparr>Target = Name target, URL = Target.URL target, Status = StatusUnhealthy,
                StatusCode = 0, Latency = now env 1 - start,
                Error = ''request failed: '' @ err, CheckedAt = now env 2\<rparr>
           | Inr resp \<Rightarrow>
               (let status = (if RespStatusCode resp \<ge> 400 then StatusUnhealthy
                              else StatusHealthy)
                in \<lparr>Target = Name target, URL = Target.URL target, Status = status,
                    StatusCode = RespStatusCode resp, Latency = now env 1 - start,
                    Error = [], CheckedAt = now env 2\<rparr>)))"

text \<open>Environments for concrete runs: a server answering with a fixed code, a malformed
  URL, an unreachable host.\<close>

definition env_code :: "int \<Rightarrow> probe_env" where
  "env_code code =
     \<lparr>now = (\<lambda>k. 100 + 5 * int k),
      NewRequestWithContext = (\<lambda>u. Inr (Request ''GET'' u)),
      Do = (\<lambda>req. Inr (Response code))\<rparr>"

definition env_bad_url :: probe_env where
  "env_bad_url =
     \<lparr>now = (\<lambda>k. 100 + 5 * int k),
      NewRequestWithContext = (\<lambda>u. Inl ''missing protocol scheme''),
      Do = (\<lambda>req. Inr (Response 200))\<rparr>"

definition env_down :: probe_env where
  "env_down =
     \<lparr>now = (\<lambda>k. 100 + 5 * int k),
      NewRequestWithContext = (\<lambda>u. Inr (Request ''GET'' u)),
      Do = (\<lambda>req. Inl ''connection refused'')\<rparr>"

definition tgt :: "string \<Rightarrow> Target" where
  "tgt n = \<lparr>Name = n, URL = ''http://x/'' @ n\<rparr>"

text \<open>
  Whether \<^verbatim>\<open>c.client.Do\<close> returns.  The checker builds its client as
  \<^verbatim>\<open>&http.Client{Timeout: timeout}\<close>, and the standard library gives a request a deadline
  only when \<^verbatim>\<open>Timeout\<close> is positive (\<^emph>\<open>a Timeout of zero means no timeout\<close>).  So the
  environment says more: \<open>Unanswered req\<close> holds when no answer to the request ever
  arrives, and \<open>CtxDone\<close> when the run's context is cancelled while the request waits.
  An unanswered request ends with the cancellation, else with the client's deadline when
  there is one, else not at all (\<open>None\<close>); an answered request gives what \<open>Do\<close> gives.
\<close>

record client_env = probe_env +
  Unanswered :: "Request \<Rightarrow> bool"
  CtxDone :: bool

definition client_Do :: "int \<Rightarrow> client_env \<Rightarrow> Request \<Rightarrow> (string + Response) option" where
  "client_Do tmo env req =
     (if Unanswered env req then
        (if CtxDone env then Some (Inl ''context canceled'')
         else if 0 < tmo then
           Some (Inl ''context deadline exceeded (Client.Timeout exceeded while awaiting headers)'')
         else None)
      else Some (Do env req))"

text \<open>\<^verbatim>\<open>check\<close> once more, run by a checker whose client has the timeout \<open>tmo\<close>: the same
  three paths, and \<open>None\<close> when \<^verbatim>\<open>c.client.Do\<close> does not return.\<close>

definition check_with_timeout :: "int \<Rightarrow> client_env \<Rightarrow> Target \<Rightarrow> Result option" where
  "check_with_timeout tmo env target =
     (let start = now env 0 in
      case NewRequestWithContext env (Target.URL target) of
        Inl err \<Rightarrow>
          Some \<lparr>Target = Name target, URL = Target.URL target, Status = StatusUnhealthy,
                StatusCode = 0, Latency = now env 1 - start,
                Error = ''bad request: '' @ err, CheckedAt = now env 2\<rparr>
      | Inr req \<Rightarrow>
          (case client_Do tmo env req of
             None \<Rightarrow> None
           | Some (Inl err) \<Rightarrow>
               Some \<lparr>Target = Name target, URL = Target.URL target, Status = StatusUnhealthy,
                     StatusCode = 0, Latency = now env 1 - start,
                     Error = ''request failed: '' @ err, CheckedAt = now env 2\<rparr>
           | Some (Inr resp) \<Rightarrow>
               (let status = (if RespStatusCode resp \<ge> 400 then StatusUnhealthy
                              else StatusHealthy)
                in Some \<lparr>Target = Name target, URL = Target.URL target, Status = status,
                         StatusCode = RespStatusCode resp, Latency = now env 1 - start,
                         Error = [], CheckedAt = now env 2\<rparr>)))"

text \<open>The environment of \<open>check\<close> in which \<^verbatim>\<open>c.client.Do\<close> has returned \<open>r\<close>.\<close>

definition returned_env :: "client_env \<Rightarrow> string + Response \<Rightarrow> probe_env" where
  "returned_env env r =
     \<lparr>now = now env, NewRequestWithContext = NewRequestWithContext env, Do = (\<lambda>req. r)\<rparr>"


section \<open>The checker and its store\<close>

text \<open>
  \<^verbatim>\<open>Checker\<close> of \<^verbatim>\<open>internal/monitor/monitor.go\<close>.  \<open>timeout\<close> is the \<^verbatim>\<open>Timeout\<close> of the HTTP
  client; \<open>logger\<close> holds the records written so far (level, message, and the attributes
  that are strings); \<open>results\<close> is the Go map guarded by \<^verbatim>\<open>mu\<close>.  The checker with the
  Redis mirror has one more field, \<open>rdb\<close>: the fields this checker has stored in the hash
  \<open>redisKey\<close>.
\<close>

datatype Level = LevelInfo | LevelWarn | LevelError

type_synonym LogRecord = "Level \<times> string \<times> (string \<times> string) list"

record Checker =
  targets :: "Target list"
  interval :: int
  timeout :: int
  logger :: "LogRecord list"
  results :: "string \<rightharpoonup> Result"

record Checker_rdb = Checker +
  rdb :: "string \<rightharpoonup> string"

text \<open>The three Prometheus collectors, package-level variables in the source.  An
  observation of \<^verbatim>\<open>checkDuration\<close> is kept as the latency itself.\<close>

record Metrics =
  checkDuration :: "string \<Rightarrow> int list"
  checkTotal :: "string \<times> Status \<Rightarrow> nat"
  targetUp :: "string \<rightharpoonup> int"

definition NewChecker :: "Target list \<Rightarrow> int \<Rightarrow> int \<Rightarrow> Checker" where
  "NewChecker ts ivl tmo =
     \<lparr>targets = ts, interval = ivl, timeout = tmo, logger = [], results = Map.empty\<rparr>"

definition NewChecker_rdb :: "Target list \<Rightarrow> int \<Rightarrow> int \<Rightarrow> Checker_rdb" where
  "NewChecker_rdb ts ivl tmo =
     \<lparr>targets = ts, interval = ivl, timeout = tmo, logger = [], results = Map.empty,
      rdb = Map.empty\<rparr>"

definition new_metrics :: Metrics where
  "new_metrics =
     \<lparr>checkDuration = (\<lambda>n. []), checkTotal = (\<lambda>k. 0), targetUp = Map.empty\<rparr>"

text \<open>The three metric updates in the body of a probe's goroutine.\<close>

definition record_metrics :: "Target \<Rightarrow> Result \<Rightarrow> Metrics \<Rightarrow> Metrics" where
  "record_metrics t result m =
     m\<lparr>checkDuration := (checkDuration m)(Name t := checkDuration m (Name t) @ [Latency result]),
       checkTotal := (checkTotal m)((Name t, Status result) :=
                        Suc (checkTotal m (Name t, Status result))),
       targetUp := (targetUp m)(Name t \<mapsto>
                        (if Status result = StatusHealthy then 1 else 0))\<rparr>"

definition log_check_complete :: "Target \<Rightarrow> Result \<Rightarrow> LogRecord" where
  "log_check_complete t result =
     (LevelInfo, ''check complete'', [(''target'', Name t), (''status'', Status result)])"

text \<open>
  The body of the goroutine that \<^verbatim>\<open>checkAll\<close> of \<^verbatim>\<open>monitor.go\<close> starts for one target:
  probe, write the Result under the lock, record the metrics, log.
\<close>

definition checkAll_task ::
  "probe_env \<Rightarrow> Target \<Rightarrow> Checker \<times> Metrics \<Rightarrow> Checker \<times> Metrics" where
  "checkAll_task env t cm =
     (case cm of (c, m) \<Rightarrow>
        let result = check env t;
            c1 = c\<lparr>results := (results c)(Name t \<mapsto> result)\<rparr>;
            m1 = record_metrics t result m;
            c2 = c1\<lparr>logger := logger c1 @ [log_check_complete t result]\<rparr>
        in (c2, m1))"

text \<open>\<^verbatim>\<open>Results\<close> of \<^verbatim>\<open>monitor.go\<close>: a copy of the map, entry by entry.  A map is a value
  here, so the copy is the map.\<close>

definition Results :: "Checker \<Rightarrow> (string \<rightharpoonup> Result)" where
  "Results c = results c"

section \<open>The Redis mirror\<close>

text \<open>
  What the mirror-enabled checker calls outside the repository:
  \<^item> \<open>Marshal\<close> is \<^verbatim>\<open>json.Marshal(result)\<close>: the error's text or the data;
  \<^item> \<open>HSet key field value\<close> is \<^verbatim>\<open>c.rdb.HSet(ctx, key, field, value).Err()\<close>: the error's
    text, or \<open>None\<close> for \<^verbatim>\<open>nil\<close>;
  \<^item> \<open>HGetAll key\<close> is \<^verbatim>\<open>c.rdb.HGetAll(ctx, key).Result()\<close>: the field-value pairs of
    the reply and the error;
  \<^item> \<open>Unmarshal\<close> is \<^verbatim>\<open>json.Unmarshal([]byte(data), &r)\<close>: the error's text or the
    Result read.
\<close>

record mirror_env =
  Marshal :: "Result \<Rightarrow> string + string"
  HSet :: "string \<Rightarrow> string \<Rightarrow> string \<Rightarrow> string option"
  HGetAll :: "string \<Rightarrow> (string \<times> string) list \<times> string option"
  Unmarshal :: "string \<Rightarrow> string + Result"





text \<open>The loop of \<^verbatim>\<open>Results\<close> over the reply: an entry that parses is stored under its
  field name, an entry that does not is skipped.\<close>

fun unmarshal_loop ::
  "mirror_env \<Rightarrow> (string \<times> string) list \<Rightarrow> (string \<rightharpoonup> Result) \<Rightarrow> (string \<rightharpoonup> Result)" where
  "unmarshal_loop menv [] out = out"
| "unmarshal_loop menv ((name, data) # vals) out =
     unmarshal_loop menv vals
       (case Unmarshal menv data of Inr r \<Rightarrow> out(name \<mapsto> r) | Inl err \<Rightarrow> out)"

text \<open>\<^verbatim>\<open>Results\<close> of the mirror-enabled checker: the mirror first, the store otherwise.\<close>

definition Results_rdb :: "mirror_env \<Rightarrow> Checker_rdb \<Rightarrow> (string \<rightharpoonup> Result)" where
  "Results_rdb menv c =
     (case HGetAll menv redisKey of
        (vals, err) \<Rightarrow>
          if err = None \<and> length vals > 0 then unmarshal_loop menv vals Map.empty
          else results c)"

text \<open>A mirror for concrete runs: the serialized form of a Result is its target's name,
  and only the names \<open>ok\<close> and \<open>ghost\<close> parse.\<close>

definition sample_result :: "string \<Rightarrow> Result" where
  "sample_result n = check (env_code 200) (tgt n)"

definition menv_reply :: "(string \<times> string) list \<times> string option \<Rightarrow> mirror_env" where
  "menv_reply reply =
     \<lparr>Marshal = (\<lambda>r. Inr (Target r)),
      HSet = (\<lambda>key field v. None),
      HGetAll = (\<lambda>key. reply),
      Unmarshal = (\<lambda>d. if d = ''ok'' \<or> d = ''ghost'' then Inr (sample_result d)
                         else Inl ''invalid character'')\<rparr>"




definition sample_checker_rdb :: Checker_rdb where
  "sample_checker_rdb =
     (NewChecker_rdb [tgt ''ok''] 30 5)\<lparr>results := [''ok'' \<mapsto> sample_result ''ok'']\<rparr>"

section \<open>The scheduler\<close>

text \<open>
  \<^verbatim>\<open>Run\<close> of \<^verbatim>\<open>monitor.go\<close> and the goroutines that \<^verbatim>\<open>checkAll\<close> starts, as a machine that
  takes one event at a time.  \<open>pc\<close> is the place of \<^verbatim>\<open>Run\<close>: before the first \<^verbatim>\<open>checkAll\<close>,
  in \<^verbatim>\<open>wg.Wait\<close> of the first \<^verbatim>\<open>checkAll\<close>, at the \<^verbatim>\<open>select\<close>, in \<^verbatim>\<open>wg.Wait\<close> of a
  \<^verbatim>\<open>checkAll\<close> of the loop, returned, or stopped by the panic of \<^verbatim>\<open>time.NewTicker\<close> on an
  interval that is not positive.
\<close>

datatype pc = AtStart | WaitFirst | AtSelect | WaitLoop | Stopped | Panicked

datatype select_case = CaseDone | CaseTick

text \<open>
  The events: the ticker fires; the context is cancelled; the goroutine started for a
  target by the cycle of the given number runs its body, with the network as it finds
  it; \<^verbatim>\<open>Run\<close> takes its next step, and at the \<^verbatim>\<open>select\<close> the case named (Go chooses
  among the ready cases; a case that is not ready is not taken).  A goroutine whose
  probe never returns is one whose event never comes.
\<close>

datatype event = Tick | Cancel | Probe nat Target probe_env | Sched select_case

text \<open>
  \<open>live\<close> holds the goroutines started and not yet done, each with the number of its
  cycle; \<open>ticker\<close> is \<open>None\<close> while no ticker runs, and otherwise tells whether a tick
  waits in the ticker's channel, which holds one; \<open>started\<close> counts the cycles begun;
  \<open>writes\<close> is the history of the writes to the store: cycle, target, Result.
\<close>

record run_state =
  chk :: Checker
  met :: Metrics
  pc :: pc
  live :: "(nat \<times> Target) list"
  ticker :: "bool option"
  ctxDone :: bool
  started :: nat
  writes :: "(nat \<times> Target \<times> Result) list"

definition Run_init :: "Checker \<Rightarrow> run_state" where
  "Run_init c =
     \<lparr>chk = c, met = new_metrics, pc = AtStart, live = [], ticker = None, ctxDone = False,
      started = 0, writes = []\<rparr>"

text \<open>The loop of \<^verbatim>\<open>checkAll\<close> that starts one goroutine for each target; \<^verbatim>\<open>Run\<close> is then
  in \<^verbatim>\<open>wg.Wait\<close>.\<close>

definition checkAll_spawn :: "pc \<Rightarrow> run_state \<Rightarrow> run_state" where
  "checkAll_spawn p s =
     s\<lparr>live := live s @ map (Pair (Suc (started s))) (targets (chk s)),
       started := Suc (started s), pc := p\<rparr>"

text \<open>\<^verbatim>\<open>wg.Wait\<close> returns when every goroutine of the running \<^verbatim>\<open>checkAll\<close> is done.\<close>

definition wg_done :: "run_state \<Rightarrow> bool" where
  "wg_done s = (filter (\<lambda>g. fst g = started s) (live s) = [])"

definition log_info :: "string \<Rightarrow> Checker \<Rightarrow> Checker" where
  "log_info msg c = c\<lparr>logger := logger c @ [(LevelInfo, msg, [])]\<rparr>"

fun step :: "run_state \<Rightarrow> event \<Rightarrow> run_state" where
  "step s Tick = (case ticker s of None \<Rightarrow> s | Some b \<Rightarrow> s\<lparr>ticker := Some True\<rparr>)"
| "step s Cancel = s\<lparr>ctxDone := True\<rparr>"
| "step s (Probe k t env) =
     (if (k, t) \<in> set (live s) then
        (case checkAll_task env t (chk s, met s) of
           (c, m) \<Rightarrow>
             s\<lparr>chk := c, met := m, live := remove1 (k, t) (live s),
               writes := writes s @ [(k, t, check env t)]\<rparr>)
      else s)"
| "step s (Sched sc) =
     (case pc s of
        AtStart \<Rightarrow> checkAll_spawn WaitFirst (s\<lparr>chk := log_info ''checker starting'' (chk s)\<rparr>)
      | WaitFirst \<Rightarrow>
          if wg_done s then
            (if interval (chk s) \<le> 0 then s\<lparr>pc := Panicked\<rparr>
             else s\<lparr>ticker := Some False, pc := AtSelect\<rparr>)
          else s
      | AtSelect \<Rightarrow>
          (case sc of
             CaseDone \<Rightarrow>
               if ctxDone s then
                 s\<lparr>chk := log_info ''checker stopping'' (chk s), ticker := None, pc := Stopped\<rparr>
               else s
           | CaseTick \<Rightarrow>
               if ticker s = Some True then checkAll_spawn WaitLoop (s\<lparr>ticker := Some False\<rparr>)
               else s)
      | WaitLoop \<Rightarrow> if wg_done s then s\<lparr>pc := AtSelect\<rparr> else s
      | Stopped \<Rightarrow> s
      | Panicked \<Rightarrow> s)"

definition exec :: "run_state \<Rightarrow> event list \<Rightarrow> run_state" where
  "exec s es = foldl step s es"

text \<open>The writes of one cycle.\<close>

definition cycle_writes :: "nat \<Rightarrow> run_state \<Rightarrow> (Target \<times> Result) list" where
  "cycle_writes k s = map snd (filter (\<lambda>w. fst w = k) (writes s))"

definition Run_start :: "Target list \<Rightarrow> int \<Rightarrow> int \<Rightarrow> run_state" where
  "Run_start ts ivl tmo = Run_init (NewChecker ts ivl tmo)"

text \<open>
  Two invariants of the machine.  The first is about control: no goroutine is live while
  \<^verbatim>\<open>Run\<close> is outside \<^verbatim>\<open>checkAll\<close>, and every live goroutine belongs to the cycle started
  last.  The second is about the store: the writes of every earlier cycle cover the target
  list, the writes of the running cycle and its live goroutines cover it together, the
  keys of the store are the names written, and under distinct names the store holds what
  the running cycle wrote.
\<close>

definition ctl_inv :: "run_state \<Rightarrow> bool" where
  "ctl_inv s =
     ((pc s \<in> {AtStart, AtSelect, Stopped, Panicked} \<longrightarrow> live s = []) \<and>
      (\<forall>g \<in> set (live s). fst g = started s) \<and>
      (pc s = AtStart \<longrightarrow> started s = 0 \<and> writes s = []) \<and>
      (pc s \<noteq> AtStart \<longrightarrow> 1 \<le> started s))"

definition wr_inv :: "Target list \<Rightarrow> run_state \<Rightarrow> bool" where
  "wr_inv ts s =
     (targets (chk s) = ts \<and>
      (\<forall>w \<in> set (writes s). 1 \<le> fst w \<and> fst w \<le> started s) \<and>
      (\<forall>k. 1 \<le> k \<and> k < started s \<longrightarrow> mset (map fst (cycle_writes k s)) = mset ts) \<and>
      (1 \<le> started s \<longrightarrow>
         mset (map fst (cycle_writes (started s) s)) + mset (map snd (live s)) = mset ts) \<and>
      dom (results (chk s)) = (\<lambda>w. Name (fst (snd w))) ` set (writes s) \<and>
      (distinct (map Name ts) \<longrightarrow>
         (\<forall>p \<in> set (cycle_writes (started s) s).
            results (chk s) (Name (fst p)) = Some (snd p))))"

text \<open>Runs over two targets: a first cycle; a second cycle with one probe still out
  and a tick waiting; two full cycles; a cancellation in the middle of the first cycle.\<close>

definition trace_first_cycle :: "event list" where
  "trace_first_cycle =
     [Sched CaseTick, Probe 1 (tgt ''ok'') (env_code 200), Probe 1 (tgt ''fail'') (env_code 500),
      Sched CaseTick]"

definition trace_mid_second :: "event list" where
  "trace_mid_second =
     trace_first_cycle @ [Tick, Sched CaseTick, Probe 2 (tgt ''ok'') (env_code 200), Tick]"

definition trace_two_cycles :: "event list" where
  "trace_two_cycles =
     trace_first_cycle @
     [Tick, Sched CaseTick, Probe 2 (tgt ''fail'') (env_code 200),
      Probe 2 (tgt ''ok'') (env_code 200)]"

definition trace_cancel_mid_cycle :: "event list" where
  "trace_cancel_mid_cycle =
     [Sched CaseTick, Probe 1 (tgt ''ok'') (env_code 200), Cancel,
      Probe 1 (tgt ''fail'') env_down, Sched CaseTick, Tick, Sched CaseDone]"


text \<open>The same cancellation, up to the moment \<^verbatim>\<open>Run\<close> is back at its \<^verbatim>\<open>select\<close> with the
  context cancelled and a tick waiting.\<close>

definition trace_cancel_at_select :: "event list" where
  "trace_cancel_at_select =
     [Sched CaseTick, Probe 1 (tgt ''ok'') (env_code 200), Cancel,
      Probe 1 (tgt ''fail'') env_down, Sched CaseTick, Tick]"

section \<open>Properties of the probe\<close>

lemma Healthy_neq_Unhealthy: "StatusHealthy \<noteq> StatusUnhealthy"
  by (simp add: StatusHealthy_def StatusUnhealthy_def)

lemma check_bad_request:
  assumes "NewRequestWithContext env (Target.URL target) = Inl err"
  shows "check env target =
     \<lparr>Target = Name target, URL = Target.URL target, Status = StatusUnhealthy,
      StatusCode = 0, Latency = now env 1 - now env 0,
      Error = ''bad request: '' @ err, CheckedAt = now env 2\<rparr>"
  using assms by (simp add: check_def)

lemma check_request_failed:
  assumes "NewRequestWithContext env (Target.URL target) = Inr req"
    and "Do env req = Inl err"
  shows "check env target =
     \<lparr>Target = Name target, URL = Target.URL target, Status = StatusUnhealthy,
      StatusCode = 0, Latency = now env 1 - now env 0,
      Error = ''request failed: '' @ err, CheckedAt = now env 2\<rparr>"
  using assms by (simp add: check_def)

lemma check_response:
  assumes "NewRequestWithContext env (Target.URL target) = Inr req"
    and "Do env req = Inr resp"
  shows "check env target =
     \<lparr>Target = Name target, URL = Target.URL target,
      Status = (if RespStatusCode resp \<ge> 400 then StatusUnhealthy else StatusHealthy),
      StatusCode = RespStatusCode resp, Latency = now env 1 - now env 0,
      Error = [], CheckedAt = now env 2\<rparr>"
  using assms by (simp add: check_def)

text \<open>The three outcome paths of a probe are exhaustive.\<close>

lemma check_cases:
  obtains (bad) err where "NewRequestWithContext env (Target.URL target) = Inl err"
  | (failed) req err where "NewRequestWithContext env (Target.URL target) = Inr req"
      and "Do env req = Inl err"
  | (response) req resp where "NewRequestWithContext env (Target.URL target) = Inr req"
      and "Do env req = Inr resp"
proof (cases "NewRequestWithContext env (Target.URL target)")
  case (Inl err)
  then show ?thesis by (rule bad)
next
  case (Inr req)
  show ?thesis
  proof (cases "Do env req")
    case (Inl err)
    with Inr show ?thesis by (rule failed)
  next
    case r: (Inr resp)
    with Inr show ?thesis by (rule response)
  qed
qed

text \<open>
  C1.  The result of a probe is Healthy exactly when the request was built, the GET
  returned a response and the response's code is below 400; a response with a code of
  400 or more gives Unhealthy with that code in \<open>StatusCode\<close>.
\<close>

theorem check_healthy_iff:
  "(Status (check env target) = StatusHealthy) =
     (\<exists>req resp. NewRequestWithContext env (Target.URL target) = Inr req \<and>
        Do env req = Inr resp \<and> RespStatusCode resp < 400)
   \<and> (\<forall>req resp. NewRequestWithContext env (Target.URL target) = Inr req \<longrightarrow>
        Do env req = Inr resp \<longrightarrow> RespStatusCode resp \<ge> 400 \<longrightarrow>
        Status (check env target) = StatusUnhealthy \<and>
        StatusCode (check env target) = RespStatusCode resp)"
proof (cases env target rule: check_cases)
  case (bad err)
  then show ?thesis
    using Healthy_neq_Unhealthy by (simp add: check_bad_request)
next
  case (failed req err)
  then show ?thesis
    using Healthy_neq_Unhealthy by (simp add: check_request_failed)
next
  case (response req resp)
  then show ?thesis
    using Healthy_neq_Unhealthy by (simp add: check_response)
qed

theorem check_healthy_iff_witness:
  "Status (check (env_code 200) (tgt ''ok'')) = StatusHealthy \<and>
   Status (check (env_code 500) (tgt ''fail'')) = StatusUnhealthy \<and>
   StatusCode (check (env_code 500) (tgt ''fail'')) = 500 \<and>
   Status (check env_down (tgt ''down'')) \<noteq> StatusHealthy"
  using check_healthy_iff [of "env_code 200" "tgt ''ok''"]
    check_healthy_iff [of "env_code 500" "tgt ''fail''"]
    check_healthy_iff [of env_down "tgt ''down''"]
  by (simp add: env_code_def env_down_def)

text \<open>The probe with a timeout is \<open>check\<close> on what \<^verbatim>\<open>c.client.Do\<close> returned, when it
  returned.\<close>

lemma check_with_timeout_check:
  "check_with_timeout tmo env target =
     (case NewRequestWithContext env (Target.URL target) of
        Inl err \<Rightarrow> Some (check (returned_env env (Inl err)) target)
      | Inr req \<Rightarrow> map_option (\<lambda>r. check (returned_env env r) target) (client_Do tmo env req))"
  by (simp add: check_with_timeout_def check_def returned_env_def Let_def
      split: sum.splits option.splits)





text \<open>
  C3.  The \<open>Error\<close> field of a probe's Result is non-empty exactly when the request could
  not be built or could not be executed; on those paths \<open>StatusCode\<close> keeps its zero
  value.  A received response with a code of 400 or more sets \<open>StatusCode\<close> to the code
  and leaves \<open>Error\<close> empty.
\<close>

theorem check_error_iff:
  "(Error (check env target) \<noteq> []) =
     ((\<exists>err. NewRequestWithContext env (Target.URL target) = Inl err) \<or>
      (\<exists>req err. NewRequestWithContext env (Target.URL target) = Inr req \<and>
         Do env req = Inl err))
   \<and> (Error (check env target) \<noteq> [] \<longrightarrow> StatusCode (check env target) = 0)
   \<and> (\<forall>req resp. NewRequestWithContext env (Target.URL target) = Inr req \<longrightarrow>
        Do env req = Inr resp \<longrightarrow> RespStatusCode resp \<ge> 400 \<longrightarrow>
        StatusCode (check env target) = RespStatusCode resp \<and>
        Error (check env target) = [])"
proof (cases env target rule: check_cases)
  case (bad err)
  then show ?thesis by (simp add: check_bad_request)
next
  case (failed req err)
  then show ?thesis by (simp add: check_request_failed)
next
  case (response req resp)
  then show ?thesis by (simp add: check_response)
qed

theorem check_error_iff_witness:
  "Error (check env_bad_url (tgt ''bad'')) \<noteq> [] \<and>
   StatusCode (check env_bad_url (tgt ''bad'')) = 0 \<and>
   Error (check env_down (tgt ''down'')) \<noteq> [] \<and>
   StatusCode (check env_down (tgt ''down'')) = 0 \<and>
   StatusCode (check (env_code 503) (tgt ''fail'')) = 503 \<and>
   Error (check (env_code 503) (tgt ''fail'')) = []"
  using check_error_iff [of env_bad_url "tgt ''bad''"] check_error_iff [of env_down "tgt ''down''"]
    check_error_iff [of "env_code 503" "tgt ''fail''"]
  by (simp add: env_bad_url_def env_down_def env_code_def)

text \<open>
  C9.  On every path the Result names the probed target: \<open>Target\<close> is the target's name,
  \<open>URL\<close> the target's URL, and \<open>CheckedAt\<close> is the clock reading taken when the Result
  is built.
\<close>

theorem check_echoes_target:
  "Target (check env target) = Name target \<and>
   Result.URL (check env target) = Target.URL target \<and>
   CheckedAt (check env target) = now env 2"
proof (cases env target rule: check_cases)
  case (bad err)
  then show ?thesis by (simp add: check_bad_request)
next
  case (failed req err)
  then show ?thesis by (simp add: check_request_failed)
next
  case (response req resp)
  then show ?thesis by (simp add: check_response)
qed

section \<open>Properties of the mirror-preferred read\<close>

text \<open>With distinct field names, as in a Go map, the loop leaves under each name the
  parse of that name's data, and what was there before where the data does not parse.\<close>

lemma unmarshal_loop_lookup:
  "distinct (map fst vals) \<Longrightarrow>
   unmarshal_loop menv vals out name =
     (case map_of vals name of
        None \<Rightarrow> out name
      | Some data \<Rightarrow> (case Unmarshal menv data of Inr r \<Rightarrow> Some r | Inl err \<Rightarrow> out name))"
proof (induction vals arbitrary: out)
  case Nil
  then show ?case by simp
next
  case (Cons v vals)
  obtain n d where v: "v = (n, d)" by (cases v)
  from Cons.prems v have dist: "distinct (map fst vals)" and notin: "n \<notin> fst ` set vals"
    by auto
  from notin have none: "map_of vals n = None"
    by (simp add: map_of_eq_None_iff)
  show ?case
  proof (cases "name = n")
    case True
    with none show ?thesis
      using Cons.IH [OF dist] v by (simp split: sum.splits)
  next
    case False
    then show ?thesis
      using Cons.IH [OF dist] v by (simp split: sum.splits option.splits)
  qed
qed

text \<open>
  C4.  A read of the status mapping on the mirror-enabled checker returns the in-memory
  store when the fetch from the mirror gives an error or an empty collection, and no
  error reaches the caller; only a fetch that succeeds with a non-empty collection
  returns the mirror's content, which is the parse of each field's data.
\<close>

theorem Results_rdb_fallback:
  assumes "HGetAll menv redisKey = (vals, err)"
  shows "(err \<noteq> None \<or> vals = [] \<longrightarrow> Results_rdb menv c = results c) \<and>
         (err = None \<and> vals \<noteq> [] \<longrightarrow> Results_rdb menv c = unmarshal_loop menv vals Map.empty) \<and>
         (err = None \<and> vals \<noteq> [] \<and> distinct (map fst vals) \<longrightarrow>
            (\<forall>name. Results_rdb menv c name =
               (case map_of vals name of
                  None \<Rightarrow> None
                | Some data \<Rightarrow> (case Unmarshal menv data of Inr r \<Rightarrow> Some r | Inl e \<Rightarrow> None))))"
  using assms by (auto simp: Results_rdb_def unmarshal_loop_lookup)


theorem Results_rdb_fallback_witness:
  "Results_rdb (menv_reply ([], Some ''i/o timeout'')) sample_checker_rdb
     = results sample_checker_rdb \<and>
   Results_rdb (menv_reply ([], None)) sample_checker_rdb = results sample_checker_rdb \<and>
   Results_rdb (menv_reply ([(''ghost'', ''ghost'')], None)) sample_checker_rdb ''ghost''
     = Some (sample_result ''ghost'') \<and>
   Results_rdb (menv_reply ([(''ghost'', ''ghost'')], None)) sample_checker_rdb ''ok'' = None"
  using Results_rdb_fallback [of "menv_reply ([], Some ''i/o timeout'')" "[]"
      "Some ''i/o timeout''" sample_checker_rdb]
    Results_rdb_fallback [of "menv_reply ([], None)" "[]" None sample_checker_rdb]
    Results_rdb_fallback [of "menv_reply ([(''ghost'', ''ghost'')], None)"
      "[(''ghost'', ''ghost'')]" None sample_checker_rdb]
  by (simp add: menv_reply_def)

text \<open>
  C10.  On the mirror-preferred path (the fetch succeeds and is non-empty) the keys
  returned are exactly the field names whose data parses: a field whose data does not
  parse is dropped without an error, and the configured target list plays no part, so
  the mapping can hold fewer entries than the mirror and names that are not configured.
\<close>

theorem Results_rdb_parseable_keys:
  assumes "HGetAll menv redisKey = (vals, None)" and "vals \<noteq> []"
    and "distinct (map fst vals)"
  shows "dom (Results_rdb menv c) =
           {name. \<exists>data r. (name, data) \<in> set vals \<and> Unmarshal menv data = Inr r} \<and>
         (\<forall>name data err. (name, data) \<in> set vals \<longrightarrow> Unmarshal menv data = Inl err \<longrightarrow>
            Results_rdb menv c name = None) \<and>
         (\<forall>name data r. (name, data) \<in> set vals \<longrightarrow> Unmarshal menv data = Inr r \<longrightarrow>
            Results_rdb menv c name = Some r) \<and>
         (\<forall>ts. Results_rdb menv (c\<lparr>targets := ts\<rparr>) = Results_rdb menv c)"
proof -
  have R: "Results_rdb menv c' = unmarshal_loop menv vals Map.empty" for c'
    using assms(1,2) by (simp add: Results_rdb_def)
  have L: "unmarshal_loop menv vals Map.empty name =
      (case map_of vals name of
         None \<Rightarrow> None
       | Some data \<Rightarrow> (case Unmarshal menv data of Inr r \<Rightarrow> Some r | Inl e \<Rightarrow> None))" for name
    using assms(3) by (simp add: unmarshal_loop_lookup)
  have M: "(map_of vals name = Some data) = ((name, data) \<in> set vals)" for name data
    using assms(3) by (simp add: map_of_eq_Some_iff)
  have dropped: "Results_rdb menv c name = None"
    if "(name, data) \<in> set vals" and "Unmarshal menv data = Inl err" for name data err
    using that M [of name data] by (simp add: R L)
  have kept: "Results_rdb menv c name = Some r"
    if "(name, data) \<in> set vals" and "Unmarshal menv data = Inr r" for name data r
    using that M [of name data] by (simp add: R L)
  have "dom (Results_rdb menv c) =
          {name. \<exists>data r. (name, data) \<in> set vals \<and> Unmarshal menv data = Inr r}"
  proof (rule set_eqI)
    fix name
    show "(name \<in> dom (Results_rdb menv c)) =
            (name \<in> {name. \<exists>data r. (name, data) \<in> set vals \<and> Unmarshal menv data = Inr r})"
    proof (cases "map_of vals name")
      case None
      then have "Results_rdb menv c name = None" by (simp add: R L)
      moreover from None have "(name, data) \<notin> set vals" for data
        using M [of name data] by simp
      ultimately show ?thesis by (simp add: dom_def)
    next
      case (Some data)
      then have mem: "(name, data) \<in> set vals" using M [of name data] by simp
      have uniq: "data' = data" if "(name, data') \<in> set vals" for data'
        using that Some M [of name data'] by simp
      show ?thesis
      proof (cases "Unmarshal menv data")
        case (Inl err)
        with mem have "Results_rdb menv c name = None" by (rule dropped)
        moreover have "\<not> (\<exists>data' r. (name, data') \<in> set vals \<and> Unmarshal menv data' = Inr r)"
          using uniq Inl by auto
        ultimately show ?thesis by (simp add: dom_def)
      next
        case (Inr r)
        with mem have "Results_rdb menv c name = Some r" by (rule kept)
        moreover have "\<exists>data' r. (name, data') \<in> set vals \<and> Unmarshal menv data' = Inr r"
          using mem Inr by blast
        ultimately show ?thesis by (simp add: dom_def)
      qed
    qed
  qed
  moreover note dropped kept
  moreover have "Results_rdb menv (c\<lparr>targets := ts\<rparr>) = Results_rdb menv c" for ts
    by (simp add: R)
  ultimately show ?thesis by blast
qed

theorem Results_rdb_parseable_keys_witness:
  "dom (Results_rdb (menv_reply ([(''ghost'', ''ghost''), (''ok'', ''{'')], None))
          sample_checker_rdb) = {''ghost''} \<and>
   ''ghost'' \<notin> Name ` set (targets sample_checker_rdb) \<and>
   Results_rdb (menv_reply ([(''ghost'', ''ghost''), (''ok'', ''{'')], None))
          sample_checker_rdb ''ok'' = None"
proof -
  let ?vals = "[(''ghost'', ''ghost''), (''ok'', ''{'')]"
  let ?menv = "menv_reply (?vals, None)"
  have h1: "HGetAll ?menv redisKey = (?vals, None)" by (simp add: menv_reply_def)
  have h2: "?vals \<noteq> []" by simp
  have h3: "distinct (map fst ?vals)" by simp
  note T = Results_rdb_parseable_keys [OF h1 h2 h3, of sample_checker_rdb]
  have U1: "Unmarshal ?menv ''{'' = Inl ''invalid character''"
    by (simp add: menv_reply_def)
  have U2: "Unmarshal ?menv ''ghost'' = Inr (sample_result ''ghost'')"
    by (simp add: menv_reply_def)
  have "{name. \<exists>data r. (name, data) \<in> set ?vals \<and> Unmarshal ?menv data = Inr r} = {''ghost''}"
    using U1 U2 by auto
  with T have "dom (Results_rdb ?menv sample_checker_rdb) = {''ghost''}" by simp
  moreover have "''ghost'' \<notin> Name ` set (targets sample_checker_rdb)"
    by (simp add: sample_checker_rdb_def NewChecker_rdb_def tgt_def)
  moreover from T U1 have "Results_rdb ?menv sample_checker_rdb ''ok'' = None" by simp
  ultimately show ?thesis by blast
qed

section \<open>Properties of the write-through\<close>






section \<open>Properties of the scheduler\<close>

lemma step_targets: "targets (chk (step s e)) = targets (chk s)"
  by (cases e)
    (auto simp: checkAll_task_def Let_def checkAll_spawn_def log_info_def
      split: pc.splits select_case.splits option.splits)

lemma wg_done_live: "ctl_inv s \<Longrightarrow> wg_done s = (live s = [])"
  by (auto simp: ctl_inv_def wg_done_def filter_empty_conv)

lemma ctl_inv_init: "ctl_inv (Run_init c)"
  by (simp add: ctl_inv_def Run_init_def)

lemma ctl_inv_probe: "ctl_inv s \<Longrightarrow> ctl_inv (step s (Probe k t env))"
  by (auto simp: ctl_inv_def split: prod.splits dest: notin_set_remove1)

lemma ctl_inv_sched: 
  assumes "ctl_inv s" shows "ctl_inv (step s (Sched sc))"
proof (cases "pc s")
  case AtStart
  with assms show ?thesis by (auto simp: ctl_inv_def checkAll_spawn_def)
next
  case WaitFirst
  with assms wg_done_live [OF assms] show ?thesis by (auto simp: ctl_inv_def)
next
  case AtSelect
  with assms show ?thesis 
    by (cases sc) (auto simp: ctl_inv_def checkAll_spawn_def)
next
  case WaitLoop
  with assms wg_done_live [OF assms] show ?thesis by (auto simp: ctl_inv_def)
next
  case Stopped
  with assms show ?thesis by simp
next
  case Panicked
  with assms show ?thesis by simp
qed

lemma ctl_inv_step: "ctl_inv s \<Longrightarrow> ctl_inv (step s e)"
proof (cases e)
  case Tick
  assume "ctl_inv s"
  with Tick show ?thesis by (auto simp: ctl_inv_def split: option.splits)
next
  case Cancel
  assume "ctl_inv s"
  with Cancel show ?thesis by (auto simp: ctl_inv_def)
next
  case (Probe k t env)
  assume "ctl_inv s"
  with Probe show ?thesis by (simp only: ctl_inv_probe)
next
  case (Sched sc)
  assume "ctl_inv s"
  with Sched show ?thesis by (simp only: ctl_inv_sched)
qed

lemma exec_Nil: "exec s [] = s"
  by (simp add: exec_def)

lemma exec_Cons: "exec s (e # es) = exec (step s e) es"
  by (simp add: exec_def)

lemma exec_snoc: "exec s (es @ [e]) = step (exec s es) e"
  by (simp add: exec_def)

lemma ctl_inv_exec: "ctl_inv s \<Longrightarrow> ctl_inv (exec s es)"
  by (induction es arbitrary: s) (simp_all add: exec_Nil exec_Cons ctl_inv_step)


lemma probe_fields:
  assumes "(k, t) \<in> set (live s)"
  shows "results (chk (step s (Probe k t env))) = (results (chk s))(Name t \<mapsto> check env t)"
    and "writes (step s (Probe k t env)) = writes s @ [(k, t, check env t)]"
    and "live (step s (Probe k t env)) = remove1 (k, t) (live s)"
    and "started (step s (Probe k t env)) = started s"
    and "pc (step s (Probe k t env)) = pc s"
    and "targets (chk (step s (Probe k t env))) = targets (chk s)"
  using assms by (simp_all add: checkAll_task_def Let_def)

lemma probe_ignored: "(k, t) \<notin> set (live s) \<Longrightarrow> step s (Probe k t env) = s"
  by simp

lemma cycle_writes_append:
  "cycle_writes k (s\<lparr>writes := ws\<rparr>) = map snd (filter (\<lambda>w. fst w = k) ws)"
  by (simp add: cycle_writes_def)

lemma distinct_names_split:
  assumes "distinct (map Name ts)" and "A + B = mset ts" and "a \<in># A" and "b \<in># B"
  shows "Name a \<noteq> Name b"
proof
  assume eq: "Name a = Name b"
  have "image_mset Name A + image_mset Name B = mset (map Name ts)"
    using assms(2) by (metis image_mset_union mset_map)
  moreover have "count (image_mset Name A) (Name a) \<ge> 1"
    using assms(3) by (simp add: Suc_le_eq)
  moreover have "count (image_mset Name B) (Name a) \<ge> 1"
    using assms(4) eq by (simp add: Suc_le_eq)
  ultimately have "count (mset (map Name ts)) (Name a) \<ge> 2"
    by (metis add_mono count_union one_add_one)
  moreover have "count (mset (map Name ts)) (Name a) \<le> 1"
    using assms(1) by (simp add: distinct_count_atmost_1)
  ultimately show False by simp
qed

lemma wr_inv_init: "wr_inv ts (Run_start ts ivl tmo)"
  by (simp add: wr_inv_def Run_start_def Run_init_def NewChecker_def cycle_writes_def)


lemma wr_inv_probe:
  assumes ctl: "ctl_inv s" and wr: "wr_inv ts s"
  shows "wr_inv ts (step s (Probe k t env))"
proof (cases "(k, t) \<in> set (live s)")
  case False
  then have "step s (Probe k t env) = s" by (rule probe_ignored)
  with wr show ?thesis by simp
next
  case True
  let ?s' = "step s (Probe k t env)"
  let ?r = "check env t"
  note F = probe_fields [OF True, of env]
  from ctl True have k: "k = started s" and st: "1 \<le> started s"
    by (auto simp: ctl_inv_def)
  have cw_same: "cycle_writes j ?s' = cycle_writes j s" if "j \<noteq> k" for j
    using that by (simp add: cycle_writes_def F del: step.simps)
  have cw_new: "cycle_writes k ?s' = cycle_writes k s @ [(t, ?r)]"
    by (simp add: cycle_writes_def F del: step.simps)
  from wr st have eq: "mset (map fst (cycle_writes (started s) s)) + mset (map snd (live s)) = mset ts"
    by (simp add: wr_inv_def)
  have tin: "t \<in># mset (map snd (live s))"
    using True by force
  have rm: "mset (map snd (remove1 (k, t) (live s))) = mset (map snd (live s)) - {#t#}"
    using True by (simp add: image_mset_Diff)
  have c1: "targets (chk ?s') = ts"
    unfolding F using wr by (simp add: wr_inv_def)
  have c2: "\<forall>w \<in> set (writes ?s'). 1 \<le> fst w \<and> fst w \<le> started ?s'"
    unfolding F using wr st k by (auto simp: wr_inv_def)
  have c3: "\<forall>j. 1 \<le> j \<and> j < started ?s' \<longrightarrow> mset (map fst (cycle_writes j ?s')) = mset ts"
  proof (intro allI impI)
    fix j assume j: "1 \<le> j \<and> j < started ?s'"
    then have jj: "1 \<le> j \<and> j < started s" unfolding F .
    with k have "j \<noteq> k" by simp
    with jj wr show "mset (map fst (cycle_writes j ?s')) = mset ts"
      by (simp add: cw_same wr_inv_def del: step.simps)
  qed
  have c4: "mset (map fst (cycle_writes (started ?s') ?s')) + mset (map snd (live ?s')) = mset ts"
  proof -
    have "mset (map fst (cycle_writes k ?s')) + mset (map snd (remove1 (k, t) (live s)))
        = (mset (map fst (cycle_writes k s)) + {#t#}) + (mset (map snd (live s)) - {#t#})"
      unfolding cw_new rm by simp
    also have "\<dots> = mset (map fst (cycle_writes k s)) + mset (map snd (live s))"
      using tin by simp
    finally show ?thesis unfolding F using eq k by simp
  qed
  have c5: "dom (results (chk ?s')) = (\<lambda>w. Name (fst (snd w))) ` set (writes ?s')"
    unfolding F using wr by (auto simp: wr_inv_def)
  have c6: "\<forall>p \<in> set (cycle_writes (started ?s') ?s'). results (chk ?s') (Name (fst p)) = Some (snd p)"
    if d: "distinct (map Name ts)"
  proof
    fix p assume "p \<in> set (cycle_writes (started ?s') ?s')"
    then have "p \<in> set (cycle_writes k s @ [(t, ?r)])"
      unfolding F using k cw_new by simp
    then consider "p = (t, ?r)" | "p \<in> set (cycle_writes (started s) s)"
      using k by auto
    then show "results (chk ?s') (Name (fst p)) = Some (snd p)"
    proof cases
      case 1
      then show ?thesis unfolding F by simp
    next
      case 2
      then have "fst p \<in># mset (map fst (cycle_writes (started s) s))" by force
      from distinct_names_split [OF d eq this tin] have "Name (fst p) \<noteq> Name t" .
      moreover from wr d 2 have "results (chk s) (Name (fst p)) = Some (snd p)"
        by (simp add: wr_inv_def)
      ultimately show ?thesis unfolding F by simp
    qed
  qed
  from c1 c2 c3 c4 c5 c6 show ?thesis
    unfolding wr_inv_def by blast
qed


lemma cycle_writes_beyond:
  assumes "\<forall>w \<in> set (writes s). 1 \<le> fst w \<and> fst w \<le> started s" and "started s < k"
  shows "cycle_writes k s = []"
  using assms by (auto simp: cycle_writes_def filter_empty_conv)

lemma cycle_writes_cong:
  "writes s' = writes s \<Longrightarrow> cycle_writes k s' = cycle_writes k s"
  by (simp add: cycle_writes_def)

lemma wr_inv_spawn:
  assumes wr: "wr_inv ts s" and idle: "live s = []" and pos: "pc s \<noteq> AtStart \<longrightarrow> 1 \<le> started s"
    and first: "pc s = AtStart \<longrightarrow> started s = 0"
  shows "wr_inv ts (checkAll_spawn p s)"
proof -
  let ?s' = "checkAll_spawn p s"
  have F: "writes ?s' = writes s" "started ?s' = Suc (started s)" "chk ?s' = chk s"
    "live ?s' = map (Pair (Suc (started s))) ts"
    using wr idle by (simp_all add: checkAll_spawn_def wr_inv_def)
  have cw: "cycle_writes j ?s' = cycle_writes j s" for j
    by (rule cycle_writes_cong) (simp add: F)
  from wr have bound: "\<forall>w \<in> set (writes s). 1 \<le> fst w \<and> fst w \<le> started s"
    by (simp add: wr_inv_def)
  have new: "cycle_writes (Suc (started s)) s = []"
    using bound by (rule cycle_writes_beyond) simp
  have c1: "targets (chk ?s') = ts"
    unfolding F using wr by (simp add: wr_inv_def)
  have c2: "\<forall>w \<in> set (writes ?s'). 1 \<le> fst w \<and> fst w \<le> started ?s'"
    unfolding F using bound by auto
  have c3: "\<forall>j. 1 \<le> j \<and> j < started ?s' \<longrightarrow> mset (map fst (cycle_writes j ?s')) = mset ts"
  proof (intro allI impI)
    fix j assume "1 \<le> j \<and> j < started ?s'"
    then have j: "1 \<le> j" "j < started s \<or> j = started s" unfolding F by auto
    from j(2) show "mset (map fst (cycle_writes j ?s')) = mset ts"
    proof
      assume "j < started s"
      with j(1) wr show ?thesis unfolding cw by (simp add: wr_inv_def)
    next
      assume "j = started s"
      with j(1) wr idle show ?thesis unfolding cw by (simp add: wr_inv_def)
    qed
  qed
  have c4: "mset (map fst (cycle_writes (started ?s') ?s')) + mset (map snd (live ?s')) = mset ts"
    unfolding cw unfolding F new by (simp add: comp_def)
  have c5: "dom (results (chk ?s')) = (\<lambda>w. Name (fst (snd w))) ` set (writes ?s')"
    unfolding F using wr by (simp add: wr_inv_def)
  have c6: "\<forall>p \<in> set (cycle_writes (started ?s') ?s'). results (chk ?s') (Name (fst p)) = Some (snd p)"
    unfolding cw unfolding F new by simp
  from c1 c2 c3 c4 c5 c6 show ?thesis
    unfolding wr_inv_def by blast
qed

lemma wr_inv_cong:
  assumes "wr_inv ts s" and "targets (chk s') = targets (chk s)"
    and "results (chk s') = results (chk s)" and "writes s' = writes s"
    and "live s' = live s" and "started s' = started s"
  shows "wr_inv ts s'"
  using assms by (simp add: wr_inv_def cycle_writes_def)

lemma wr_inv_sched:
  assumes ctl: "ctl_inv s" and wr: "wr_inv ts s"
  shows "wr_inv ts (step s (Sched sc))"
proof (cases "pc s")
  case AtStart
  let ?s1 = "s\<lparr>chk := log_info ''checker starting'' (chk s)\<rparr>"
  have "wr_inv ts ?s1"
    using wr by (rule wr_inv_cong) (simp_all add: log_info_def)
  moreover have "live ?s1 = []" "pc ?s1 \<noteq> AtStart \<longrightarrow> 1 \<le> started ?s1"
    "pc ?s1 = AtStart \<longrightarrow> started ?s1 = 0"
    using ctl AtStart by (simp_all add: ctl_inv_def)
  ultimately have "wr_inv ts (checkAll_spawn WaitFirst ?s1)"
    by (rule wr_inv_spawn)
  with AtStart show ?thesis by simp
next
  case WaitFirst
  have "wr_inv ts s'" if "s' = s\<lparr>pc := Panicked\<rparr> \<or> s' = s\<lparr>ticker := Some False, pc := AtSelect\<rparr>" for s'
    using wr by (rule wr_inv_cong) (use that in auto)
  with WaitFirst wr show ?thesis by simp
next
  case AtSelect
  show ?thesis
  proof (cases sc)
    case CaseDone
    have "wr_inv ts (s\<lparr>chk := log_info ''checker stopping'' (chk s), ticker := None, pc := Stopped\<rparr>)"
      using wr by (rule wr_inv_cong) (simp_all add: log_info_def)
    with AtSelect CaseDone wr show ?thesis by simp
  next
    case CaseTick
    let ?s1 = "s\<lparr>ticker := Some False\<rparr>"
    have "wr_inv ts ?s1"
      using wr by (rule wr_inv_cong) simp_all
    moreover have "live ?s1 = []" "pc ?s1 \<noteq> AtStart \<longrightarrow> 1 \<le> started ?s1"
      "pc ?s1 = AtStart \<longrightarrow> started ?s1 = 0"
      using ctl AtSelect by (simp_all add: ctl_inv_def)
    ultimately have "wr_inv ts (checkAll_spawn WaitLoop ?s1)"
      by (rule wr_inv_spawn)
    with AtSelect CaseTick wr show ?thesis by simp
  qed
next
  case WaitLoop
  have "wr_inv ts (s\<lparr>pc := AtSelect\<rparr>)"
    using wr by (rule wr_inv_cong) simp_all
  with WaitLoop wr show ?thesis by simp
next
  case Stopped
  with wr show ?thesis by simp
next
  case Panicked
  with wr show ?thesis by simp
qed

lemma wr_inv_step:
  assumes "ctl_inv s" and "wr_inv ts s"
  shows "wr_inv ts (step s e)"
proof (cases e)
  case Tick
  have "wr_inv ts (s\<lparr>ticker := Some True\<rparr>)"
    using assms(2) by (rule wr_inv_cong) simp_all
  with Tick assms(2) show ?thesis by (simp split: option.splits)
next
  case Cancel
  have "wr_inv ts (s\<lparr>ctxDone := True\<rparr>)"
    using assms(2) by (rule wr_inv_cong) simp_all
  with Cancel show ?thesis by simp
next
  case (Probe k t env)
  with assms show ?thesis by (simp only: wr_inv_probe)
next
  case (Sched sc)
  with assms show ?thesis by (simp only: wr_inv_sched)
qed

lemma inv_exec:
  "ctl_inv s \<Longrightarrow> wr_inv ts s \<Longrightarrow> ctl_inv (exec s es) \<and> wr_inv ts (exec s es)"
  by (induction es arbitrary: s) (simp_all add: exec_Nil exec_Cons ctl_inv_step wr_inv_step)

lemma inv_reachable:
  "ctl_inv (exec (Run_start ts ivl tmo) es) \<and> wr_inv ts (exec (Run_start ts ivl tmo) es)"
proof (rule inv_exec)
  show "ctl_inv (Run_start ts ivl tmo)"
    unfolding Run_start_def by (rule ctl_inv_init)
  show "wr_inv ts (Run_start ts ivl tmo)"
    by (rule wr_inv_init)
qed

lemma cycles_complete:
  assumes "wr_inv ts s" and "live s = []" and "1 \<le> k" and "k \<le> started s"
  shows "mset (map fst (cycle_writes k s)) = mset ts"
proof (cases "k < started s")
  case True
  with assms show ?thesis by (simp add: wr_inv_def)
next
  case False
  with assms have "k = started s" by simp
  with assms show ?thesis by (simp add: wr_inv_def)
qed

lemma write_in_cycle:
  "w \<in> set (writes s) \<Longrightarrow> snd w \<in> set (cycle_writes (fst w) s)"
  by (auto simp: cycle_writes_def)

lemma cycle_write_in_writes:
  "p \<in> set (cycle_writes k s) \<Longrightarrow> (k, p) \<in> set (writes s)"
  by (auto simp: cycle_writes_def)

lemma dom_results_complete:
  assumes wr: "wr_inv ts s" and idle: "live s = []" and pos: "1 \<le> started s"
  shows "dom (results (chk s)) = Name ` set ts"
proof -
  from wr have dom: "dom (results (chk s)) = (\<lambda>w. Name (fst (snd w))) ` set (writes s)"
    and bound: "\<forall>w \<in> set (writes s). 1 \<le> fst w \<and> fst w \<le> started s"
    by (simp_all add: wr_inv_def)
  have sub: "fst (snd w) \<in> set ts" if w: "w \<in> set (writes s)" for w
  proof -
    from w bound have "1 \<le> fst w" "fst w \<le> started s" by auto
    with wr idle have "mset (map fst (cycle_writes (fst w) s)) = mset ts"
      by (rule cycles_complete)
    then have "set (map fst (cycle_writes (fst w) s)) = set ts"
      by (rule mset_eq_setD)
    moreover from w have "fst (snd w) \<in> set (map fst (cycle_writes (fst w) s))"
      using write_in_cycle [OF w] by simp
    ultimately show ?thesis by simp
  qed
  have sup: "t \<in> (\<lambda>w. fst (snd w)) ` set (writes s)" if t: "t \<in> set ts" for t
  proof -
    from wr idle pos have "mset (map fst (cycle_writes (started s) s)) = mset ts"
      by (rule cycles_complete) simp
    then have "set (map fst (cycle_writes (started s) s)) = set ts"
      by (rule mset_eq_setD)
    with t have "t \<in> fst ` set (cycle_writes (started s) s)" by simp
    then obtain p where "p \<in> set (cycle_writes (started s) s)" and "fst p = t"
      by (auto simp: image_iff)
    then have "(started s, p) \<in> set (writes s)" and "fst (snd (started s, p)) = t"
      by (simp_all add: cycle_write_in_writes)
    then show ?thesis by force
  qed
  have "(\<lambda>w. fst (snd w)) ` set (writes s) = set ts"
  proof (rule equalityI)
    show "(\<lambda>w. fst (snd w)) ` set (writes s) \<subseteq> set ts"
      using sub by blast
    show "set ts \<subseteq> (\<lambda>w. fst (snd w)) ` set (writes s)"
      using sup by blast
  qed
  then have "Name ` ((\<lambda>w. fst (snd w)) ` set (writes s)) = Name ` set ts"
    by simp
  then show ?thesis unfolding dom by (simp add: image_image)
qed

lemma blocked_while_live:
  assumes "ctl_inv s" and "live s \<noteq> []"
  shows "step s (Sched sc) = s"
proof -
  from assms have "pc s = WaitFirst \<or> pc s = WaitLoop"
    by (cases "pc s") (auto simp: ctl_inv_def)
  moreover from assms have "\<not> wg_done s"
    by (simp add: wg_done_live)
  ultimately show ?thesis by auto
qed

lemma started_step:
  "started (step s e) = started s \<or>
   (started (step s e) = Suc (started s) \<and> (\<exists>sc. e = Sched sc))"
  by (cases e)
    (auto simp: checkAll_spawn_def split: pc.splits select_case.splits option.splits prod.splits)

lemma cycle_start_idle:
  assumes "ctl_inv s" and "started (step s e) \<noteq> started s"
  shows "live s = [] \<and> started (step s e) = Suc (started s)"
proof -
  from started_step [of s e] assms(2) obtain sc
    where e: "e = Sched sc" and suc: "started (step s e) = Suc (started s)"
    by auto
  have "live s = []"
  proof (rule ccontr)
    assume "live s \<noteq> []"
    with assms(1) have "step s (Sched sc) = s" by (rule blocked_while_live)
    with e assms(2) show False by simp
  qed
  with suc show ?thesis by simp
qed

lemma stopped_step:
  assumes "pc s = Stopped" and "live s = []"
  shows "pc (step s e) = Stopped \<and> live (step s e) = [] \<and> started (step s e) = started s"
  using assms by (cases e) (auto split: option.splits)

lemma stopped_exec:
  "pc s = Stopped \<Longrightarrow> live s = [] \<Longrightarrow>
   pc (exec s es) = Stopped \<and> live (exec s es) = [] \<and> started (exec s es) = started s"
proof (induction es arbitrary: s)
  case Nil
  then show ?case by (simp add: exec_Nil)
next
  case (Cons e es)
  from stopped_step [OF Cons.prems, of e] Cons.IH [of "step s e"]
  show ?case by (simp add: exec_Cons)
qed

lemmas run_eval = exec_def Run_start_def Run_init_def NewChecker_def checkAll_spawn_def
  wg_done_def checkAll_task_def log_info_def tgt_def Let_def

text \<open>
  C5, as claimed: the scheduler may begin a cycle while a probe of an earlier cycle is
  still running.  No run does: there is no reachable state with a live probe from which
  a step starts a cycle.
\<close>

theorem Run_overlap_counterexample:
  "\<not> (\<exists>ts ivl tmo es e.
        started (exec (Run_start ts ivl tmo) es) < started (step (exec (Run_start ts ivl tmo) es) e) \<and>
        live (exec (Run_start ts ivl tmo) es) \<noteq> [])"
proof
  assume "\<exists>ts ivl tmo es e.
        started (exec (Run_start ts ivl tmo) es) < started (step (exec (Run_start ts ivl tmo) es) e) \<and>
        live (exec (Run_start ts ivl tmo) es) \<noteq> []"
  then obtain ts ivl tmo es e
    where grow: "started (exec (Run_start ts ivl tmo) es) < started (step (exec (Run_start ts ivl tmo) es) e)"
      and busy: "live (exec (Run_start ts ivl tmo) es) \<noteq> []"
    by blast
  have "ctl_inv (exec (Run_start ts ivl tmo) es)"
    using inv_reachable by blast
  moreover from grow
  have "started (step (exec (Run_start ts ivl tmo) es) e) \<noteq> started (exec (Run_start ts ivl tmo) es)"
    by simp
  ultimately have "live (exec (Run_start ts ivl tmo) es) = []"
    using cycle_start_idle by blast
  with busy show False by simp
qed

text \<open>
  C5, amended.  Cycles never overlap: \<^verbatim>\<open>Run\<close> calls \<^verbatim>\<open>checkAll\<close> in its own loop and
  \<^verbatim>\<open>checkAll\<close> returns only after every probe of the cycle is done, so a step starts a
  cycle only when no probe is live and every earlier cycle has written a Result for
  every target.  While a probe is live \<^verbatim>\<open>Run\<close> does not move, and a tick that fires
  then waits in the ticker's channel.
\<close>

theorem Run_cycles_never_overlap:
  assumes "s = exec (Run_start ts ivl tmo) es"
  shows "(started (step s e) \<noteq> started s \<longrightarrow>
            live s = [] \<and> started (step s e) = Suc (started s) \<and>
            (\<forall>k. 1 \<le> k \<and> k \<le> started s \<longrightarrow> mset (map fst (cycle_writes k s)) = mset ts)) \<and>
         (live s \<noteq> [] \<longrightarrow>
            step s (Sched sc) = s \<and>
            started (step s Tick) = started s \<and> live (step s Tick) = live s \<and>
            (ticker s \<noteq> None \<longrightarrow> ticker (step s Tick) = Some True))"
proof -
  from assms have ctl: "ctl_inv s" and wr: "wr_inv ts s"
    using inv_reachable by simp_all
  have "live s = [] \<and> started (step s e) = Suc (started s) \<and>
        (\<forall>k. 1 \<le> k \<and> k \<le> started s \<longrightarrow> mset (map fst (cycle_writes k s)) = mset ts)"
    if "started (step s e) \<noteq> started s"
  proof -
    from ctl that have idle: "live s = [] \<and> started (step s e) = Suc (started s)"
      by (rule cycle_start_idle)
    then have "live s = []" by simp
    with wr have "mset (map fst (cycle_writes k s)) = mset ts" if "1 \<le> k" and "k \<le> started s" for k
      using that by (rule cycles_complete)
    with idle show ?thesis by blast
  qed
  moreover have "step s (Sched sc) = s" if "live s \<noteq> []"
    using ctl that by (rule blocked_while_live)
  moreover have "started (step s Tick) = started s \<and> live (step s Tick) = live s \<and>
      (ticker s \<noteq> None \<longrightarrow> ticker (step s Tick) = Some True)"
    by (auto split: option.splits)
  ultimately show ?thesis by blast
qed


theorem Run_cycles_never_overlap_witness:
  "live (exec (Run_start [tgt ''ok'', tgt ''fail''] 30 5) trace_mid_second) \<noteq> [] \<and>
   step (exec (Run_start [tgt ''ok'', tgt ''fail''] 30 5) trace_mid_second) (Sched CaseTick)
     = exec (Run_start [tgt ''ok'', tgt ''fail''] 30 5) trace_mid_second \<and>
   started (step (exec (Run_start [tgt ''ok'', tgt ''fail''] 30 5) (trace_first_cycle @ [Tick]))
              (Sched CaseTick))
     \<noteq> started (exec (Run_start [tgt ''ok'', tgt ''fail''] 30 5) (trace_first_cycle @ [Tick])) \<and>
   live (exec (Run_start [tgt ''ok'', tgt ''fail''] 30 5) (trace_first_cycle @ [Tick])) = []"
proof -
  let ?s0 = "exec (Run_start [tgt ''ok'', tgt ''fail''] 30 5) (trace_first_cycle @ [Tick])"
  let ?s1 = "exec (Run_start [tgt ''ok'', tgt ''fail''] 30 5) trace_mid_second"
  have busy: "live ?s1 \<noteq> []"
    by (simp add: trace_mid_second_def trace_first_cycle_def run_eval)
  have grows: "started (step ?s0 (Sched CaseTick)) \<noteq> started ?s0"
    by (simp add: trace_first_cycle_def run_eval)
  from Run_cycles_never_overlap [OF refl, of "[tgt ''ok'', tgt ''fail'']" 30 5 trace_mid_second]
    busy
  have "step ?s1 (Sched CaseTick) = ?s1" by blast
  moreover
  from Run_cycles_never_overlap [OF refl, of "[tgt ''ok'', tgt ''fail'']" 30 5
      "trace_first_cycle @ [Tick]" "Sched CaseTick"] grows
  have "live ?s0 = []" by blast
  ultimately show ?thesis using busy grows by blast
qed

lemma started_needs_tick:
  "pc s \<noteq> AtStart \<Longrightarrow> ticker s \<noteq> Some True \<Longrightarrow> started (step s e) = started s"
  by (cases e)
    (auto simp: checkAll_spawn_def split: pc.splits select_case.splits option.splits prod.splits)

lemma ctxDone_step: "ctxDone s \<Longrightarrow> ctxDone (step s e)"
  by (cases e)
    (auto simp: checkAll_spawn_def split: pc.splits select_case.splits option.splits prod.splits)

text \<open>
  C6, as claimed: after the cancellation signal no further check cycle is started.  In
  this run the signal arrives while cycle 1 is in flight; the cycle completes, \<^verbatim>\<open>Run\<close> is
  back at its \<^verbatim>\<open>select\<close> with the context cancelled and a tick waiting, the \<^verbatim>\<open>select\<close>
  takes the tick, and cycle 2 is started.
\<close>

theorem Run_cycle_after_cancel_counterexample:
  "ctxDone (exec (Run_start [tgt ''ok'', tgt ''fail''] 30 5) trace_cancel_at_select) \<and>
   pc (exec (Run_start [tgt ''ok'', tgt ''fail''] 30 5) trace_cancel_at_select) = AtSelect \<and>
   started (exec (Run_start [tgt ''ok'', tgt ''fail''] 30 5) trace_cancel_at_select) = 1 \<and>
   started (exec (Run_start [tgt ''ok'', tgt ''fail''] 30 5)
      (trace_cancel_at_select @ [Sched CaseTick])) = 2 \<and>
   live (exec (Run_start [tgt ''ok'', tgt ''fail''] 30 5)
      (trace_cancel_at_select @ [Sched CaseTick])) = [(2, tgt ''ok''), (2, tgt ''fail'')]"
  by (simp add: trace_cancel_at_select_def run_eval)

text \<open>
  C6, amended.  Once the loop takes the cancellation case of its \<^verbatim>\<open>select\<close>, \<^verbatim>\<open>Run\<close> has
  returned and no later event starts a cycle.  The cancellation removes no live probe and
  does not move \<^verbatim>\<open>Run\<close>, and stays in force; when \<^verbatim>\<open>Run\<close> has returned, no probe is live,
  every cycle that was started (the one in flight at the cancellation among them) has
  written a Result for every target, and the store has an entry for each target name.
  Between the signal and that moment a cycle can still start: at the \<^verbatim>\<open>select\<close>, with the
  context cancelled and a tick waiting, the tick case may be taken and starts a whole
  cycle; after the first cycle no cycle starts unless a tick is waiting.
\<close>

theorem Run_cancellation:
  assumes "s = exec (Run_start ts ivl tmo) es"
  shows "(pc s = AtSelect \<and> ctxDone s \<longrightarrow> pc (step s (Sched CaseDone)) = Stopped) \<and>
         (pc s = Stopped \<longrightarrow>
            pc (exec s es') = Stopped \<and> started (exec s es') = started s) \<and>
         (live (step s Cancel) = live s \<and> pc (step s Cancel) = pc s \<and>
          started (step s Cancel) = started s) \<and>
         (pc s = Stopped \<longrightarrow>
            live s = [] \<and> 1 \<le> started s \<and>
            (\<forall>k. 1 \<le> k \<and> k \<le> started s \<longrightarrow> mset (map fst (cycle_writes k s)) = mset ts) \<and>
            dom (Results (chk s)) = Name ` set ts) \<and>
         (pc s = AtSelect \<and> ctxDone s \<and> ticker s = Some True \<longrightarrow>
            started (step s (Sched CaseTick)) = Suc (started s) \<and>
            live (step s (Sched CaseTick)) = map (Pair (Suc (started s))) ts \<and>
            ctxDone (step s (Sched CaseTick))) \<and>
         (pc s \<noteq> AtStart \<and> ticker s \<noteq> Some True \<longrightarrow> started (step s e) = started s) \<and>
         (ctxDone s \<longrightarrow> ctxDone (step s e))"
proof -
  from assms have ctl: "ctl_inv s" and wr: "wr_inv ts s"
    using inv_reachable by simp_all
  have a: "pc (step s (Sched CaseDone)) = Stopped" if "pc s = AtSelect \<and> ctxDone s"
    using that by simp
  have idle: "live s = []" and pos: "1 \<le> started s" if "pc s = Stopped"
    using ctl that by (simp_all add: ctl_inv_def)
  have b: "pc (exec s es') = Stopped \<and> started (exec s es') = started s" if "pc s = Stopped"
    using stopped_exec [OF that idle [OF that], of es'] by simp
  have c: "live (step s Cancel) = live s \<and> pc (step s Cancel) = pc s \<and>
      started (step s Cancel) = started s"
    by simp
  have d1: "\<forall>k. 1 \<le> k \<and> k \<le> started s \<longrightarrow> mset (map fst (cycle_writes k s)) = mset ts"
    if "pc s = Stopped"
    using cycles_complete [OF wr idle [OF that]] by blast
  have d2: "dom (Results (chk s)) = Name ` set ts" if "pc s = Stopped"
    unfolding Results_def using wr idle [OF that] pos [OF that] by (rule dom_results_complete)
  have e: "started (step s (Sched CaseTick)) = Suc (started s) \<and>
      live (step s (Sched CaseTick)) = map (Pair (Suc (started s))) ts \<and>
      ctxDone (step s (Sched CaseTick))"
    if "pc s = AtSelect \<and> ctxDone s \<and> ticker s = Some True"
  proof -
    from ctl that have "live s = []" by (simp add: ctl_inv_def)
    moreover from wr have "targets (chk s) = ts" by (simp add: wr_inv_def)
    ultimately show ?thesis using that by (simp add: checkAll_spawn_def)
  qed
  have f: "started (step s e) = started s" if "pc s \<noteq> AtStart \<and> ticker s \<noteq> Some True"
    using that by (simp add: started_needs_tick)
  have g: "ctxDone (step s e)" if "ctxDone s"
    using that by (rule ctxDone_step)
  from a b c d1 d2 idle pos e f g show ?thesis by blast
qed

theorem Run_cancellation_witness:
  "pc (exec (Run_start [tgt ''ok'', tgt ''fail''] 30 5) trace_cancel_mid_cycle) = Stopped \<and>
   started (exec (Run_start [tgt ''ok'', tgt ''fail''] 30 5)
      (trace_cancel_mid_cycle @ [Tick, Sched CaseTick])) = 1 \<and>
   live (exec (Run_start [tgt ''ok'', tgt ''fail''] 30 5) trace_cancel_mid_cycle) = [] \<and>
   dom (Results (chk (exec (Run_start [tgt ''ok'', tgt ''fail''] 30 5) trace_cancel_mid_cycle)))
     = {''ok'', ''fail''} \<and>
   started (step (exec (Run_start [tgt ''ok'', tgt ''fail''] 30 5) trace_cancel_at_select)
      (Sched CaseTick)) = 2 \<and>
   pc (step (exec (Run_start [tgt ''ok'', tgt ''fail''] 30 5) trace_cancel_at_select)
      (Sched CaseDone)) = Stopped"
proof -
  let ?s = "exec (Run_start [tgt ''ok'', tgt ''fail''] 30 5) trace_cancel_mid_cycle"
  let ?a = "exec (Run_start [tgt ''ok'', tgt ''fail''] 30 5) trace_cancel_at_select"
  have stopped: "pc ?s = Stopped"
    by (simp add: trace_cancel_mid_cycle_def run_eval)
  have one: "started ?s = 1"
    by (simp add: trace_cancel_mid_cycle_def run_eval)
  have at_select: "pc ?a = AtSelect \<and> ctxDone ?a \<and> ticker ?a = Some True"
    by (simp add: trace_cancel_at_select_def run_eval)
  have one': "started ?a = 1"
    by (simp add: trace_cancel_at_select_def run_eval)
  note T = Run_cancellation [OF refl, of "[tgt ''ok'', tgt ''fail'']" 30 5 trace_cancel_mid_cycle
      "[Tick, Sched CaseTick]"]
  note A = Run_cancellation [OF refl, of "[tgt ''ok'', tgt ''fail'']" 30 5 trace_cancel_at_select]
  from T stopped have "started (exec ?s [Tick, Sched CaseTick]) = started ?s" by blast
  then have "started (exec (Run_start [tgt ''ok'', tgt ''fail''] 30 5)
      (trace_cancel_mid_cycle @ [Tick, Sched CaseTick])) = 1"
    using one by (simp add: exec_def)
  moreover from T stopped have "live ?s = []" by blast
  moreover from T stopped have "dom (Results (chk ?s)) = Name ` set [tgt ''ok'', tgt ''fail'']"
    by blast
  then have "dom (Results (chk ?s)) = {''ok'', ''fail''}"
    by (simp add: tgt_def)
  moreover from A at_select have "started (step ?a (Sched CaseTick)) = Suc (started ?a)"
    by blast
  then have "started (step ?a (Sched CaseTick)) = 2"
    using one' by simp
  moreover from A at_select have "pc (step ?a (Sched CaseDone)) = Stopped"
    by blast
  ultimately show ?thesis using stopped by blast
qed

text \<open>
  C8.  For a target list with distinct names and \<open>N \<ge> 1\<close>: after \<open>N\<close> cycles have been
  started and no probe is live any more, the keys of the snapshot are exactly the
  configured target names, the writes of cycle \<open>N\<close> are one per target, and each target's
  name maps to the Result that cycle \<open>N\<close> wrote for it.  Names need not be non-empty.
\<close>

theorem Run_snapshot_after_cycles:
  assumes "s = exec (Run_start ts ivl tmo) es" and "distinct (map Name ts)"
    and "started s = N" and "1 \<le> N" and "live s = []"
  shows "dom (Results (chk s)) = Name ` set ts \<and>
         mset (map fst (cycle_writes N s)) = mset ts \<and>
         (\<forall>p \<in> set (cycle_writes N s). Results (chk s) (Name (fst p)) = Some (snd p))"
proof -
  from assms(1) have ctl: "ctl_inv s" and wr: "wr_inv ts s"
    using inv_reachable by simp_all
  from assms(3,4) have pos: "1 \<le> started s" by simp
  have "dom (Results (chk s)) = Name ` set ts"
    unfolding Results_def using wr assms(5) pos by (rule dom_results_complete)
  moreover have "mset (map fst (cycle_writes N s)) = mset ts"
    using wr assms(5) assms(4) by (rule cycles_complete) (simp add: assms(3))
  moreover have "\<forall>p \<in> set (cycle_writes N s). Results (chk s) (Name (fst p)) = Some (snd p)"
    using wr assms(2,3) by (simp add: wr_inv_def Results_def)
  ultimately show ?thesis by blast
qed


theorem Run_snapshot_after_cycles_witness:
  "dom (Results (chk (exec (Run_start [tgt ''ok'', tgt ''fail''] 30 5) trace_two_cycles)))
     = {''ok'', ''fail''} \<and>
   Results (chk (exec (Run_start [tgt ''ok'', tgt ''fail''] 30 5) trace_two_cycles)) ''fail''
     = Some (check (env_code 200) (tgt ''fail'')) \<and>
   Status (check (env_code 200) (tgt ''fail'')) = StatusHealthy"
proof -
  let ?ts = "[tgt ''ok'', tgt ''fail'']"
  let ?s = "exec (Run_start ?ts 30 5) trace_two_cycles"
  have d: "distinct (map Name ?ts)"
    by (simp add: tgt_def)
  have two: "started ?s = 2"
    by (simp add: trace_two_cycles_def trace_first_cycle_def run_eval)
  have idle: "live ?s = []"
    by (simp add: trace_two_cycles_def trace_first_cycle_def run_eval)
  have w: "(tgt ''fail'', check (env_code 200) (tgt ''fail'')) \<in> set (cycle_writes 2 ?s)"
    by (simp add: trace_two_cycles_def trace_first_cycle_def run_eval cycle_writes_def)
  have le: "(1::nat) \<le> 2" by simp
  note T = Run_snapshot_after_cycles [OF refl d two le idle]
  from T have "dom (Results (chk ?s)) = Name ` set ?ts" by simp
  then have "dom (Results (chk ?s)) = {''ok'', ''fail''}"
    by (simp add: tgt_def)
  moreover from T w
  have "Results (chk ?s) (Name (fst (tgt ''fail'', check (env_code 200) (tgt ''fail''))))
      = Some (snd (tgt ''fail'', check (env_code 200) (tgt ''fail'')))"
    by blast
  then have "Results (chk ?s) ''fail'' = Some (check (env_code 200) (tgt ''fail''))"
    by (simp add: tgt_def)
  moreover have "Status (check (env_code 200) (tgt ''fail'')) = StatusHealthy"
    by (simp add: check_def env_code_def)
  ultimately show ?thesis by blast
qed

end
